theory Spec2Isabelle
  imports Complex_Main "HOL-Library.Word" "HOL-Library.Sublist" "HOL-Library.AList"
begin

section \<open>JavaScript strings\<close>

text \<open>
  A JavaScript string is a sequence of UTF-16 code units, and \<open>indexOf\<close>,
  \<open>lastIndexOf\<close>, \<open>substring\<close>, \<open>replace\<close> (without the \<open>u\<close> flag) and
  \<open>JSON.parse\<close> all work on code units. A code unit is a 16-bit word; \<open>ch\<close> embeds
  an ASCII or Latin-1 character, \<open>utf16\<close> a literal made of such characters.
\<close>

type_synonym jschar = "16 word"
type_synonym jsstring = "jschar list"

definition ch :: "char \<Rightarrow> jschar" where
  "ch c = of_nat (of_char c)"

definition utf16 :: "string \<Rightarrow> jsstring" where
  "utf16 s = map ch s"

text \<open>\<open>s.indexOf(c)\<close> for a one-unit search string: the first index, or \<open>-1\<close>.\<close>

fun indexOf :: "jsstring \<Rightarrow> jschar \<Rightarrow> int" where
  "indexOf [] c = -1"
| "indexOf (x # xs) c =
     (if x = c then 0 else (let i = indexOf xs c in if i = -1 then -1 else i + 1))"

text \<open>\<open>s.lastIndexOf(c)\<close>: the last index, or \<open>-1\<close>.\<close>

definition lastIndexOf :: "jsstring \<Rightarrow> jschar \<Rightarrow> int" where
  "lastIndexOf s c =
     (let i = indexOf (rev s) c in if i = -1 then -1 else int (length s) - 1 - i)"

text \<open>
  \<open>s.substring(a, b)\<close>: both arguments are clamped to \<open>[0, length]\<close> and swapped
  when the first exceeds the second.
\<close>

definition substring :: "jsstring \<Rightarrow> int \<Rightarrow> int \<Rightarrow> jsstring" where
  "substring s a b =
     (let n = int (length s);
          a' = max 0 (min a n);
          b' = max 0 (min b n);
          lo = min a' b';
          hi = max a' b'
      in take (nat (hi - lo)) (drop (nat lo) s))"

text \<open>
  \<open>s.replace(/pat/g, '')\<close> for a pattern that is a fixed, non-empty string: the
  matches are found from left to right, each search resuming after the previous
  match, and every match is deleted.
\<close>

function remove_matches :: "jsstring \<Rightarrow> jsstring \<Rightarrow> jsstring" where
  "remove_matches pat s =
     (if s = [] then []
      else if pat \<noteq> [] \<and> prefix pat s then remove_matches pat (drop (length pat) s)
      else hd s # remove_matches pat (tl s))"
  by pat_completeness auto
termination
  by (relation "measure (\<lambda>(pat, s). length s)") (auto simp: neq_Nil_conv)

section \<open>Recovering the payload from the reply (\<open>analyzeUrl\<close>, lines 65 to 75)\<close>

text \<open>Line 65: \<open>response.text || "{}"\<close>; an absent and an empty text are both falsy.\<close>

definition text_or_default :: "jsstring option \<Rightarrow> jsstring" where
  "text_or_default t =
     (case t of None \<Rightarrow> utf16 ''{}'' | Some s \<Rightarrow> if s = [] then utf16 ''{}'' else s)"

text \<open>Line 68: \<open>jsonText.replace(/```json/g, '').replace(/```/g, '')\<close>.\<close>

definition strip_fences :: "jsstring \<Rightarrow> jsstring" where
  "strip_fences s = remove_matches (utf16 ''```'') (remove_matches (utf16 ''```json'') s)"

text \<open>Lines 71 to 75: keep the span from the first \<open>{\<close> to the last \<open>}\<close> when both exist.\<close>

definition extract_object :: "jsstring \<Rightarrow> jsstring" where
  "extract_object s =
     (let firstBrace = indexOf s (ch CHR ''{'');
          lastBrace = lastIndexOf s (ch CHR ''}'')
      in if firstBrace \<noteq> -1 \<and> lastBrace \<noteq> -1
         then substring s firstBrace (lastBrace + 1)
         else s)"

text \<open>The text handed to \<open>JSON.parse\<close> on line 77.\<close>

definition json_candidate :: "jsstring option \<Rightarrow> jsstring" where
  "json_candidate t = extract_object (strip_fences (text_or_default t))"

section \<open>JavaScript values\<close>

text \<open>
  The values that \<open>JSON.parse\<close> and the source build. An object is the list of its own
  properties with their values, each key once; only lookups and assignments are made,
  so the order of the list stands for no enumeration order. An array carries, beside
  its elements, the named properties assigned to it (none after \<open>JSON.parse\<close>). A
  number is held as the rational that its literal denotes: JavaScript keeps the
  nearest IEEE double, a rounding that is not part of this model and that is exact on
  the integers below \<open>2^53\<close>.
\<close>

datatype jsval =
    JUndefined
  | JNull
  | JBool bool
  | JNum rat
  | JStr jsstring
  | JArr "jsval list" "(jsstring \<times> jsval) list"
  | JObj "(jsstring \<times> jsval) list"

text \<open>
  What a call can throw. The message of the \<open>SyntaxError\<close> of \<open>JSON.parse\<close> is chosen
  by the engine and the source never reads it, so it is not kept.
\<close>

datatype js_error =
    SyntaxError
  | TypeError
  | UpstreamError
  | Error jsstring

section \<open>\<open>JSON.parse\<close>\<close>

text \<open>
  \<open>JSON.parse\<close> is the engine's, not the repository's: it is modelled from ECMA-262
  (24.5.1) and the JSON grammar of ECMA-404, without a reviver.
\<close>

definition is_ws :: "jschar \<Rightarrow> bool" where
  "is_ws c \<longleftrightarrow> c = ch (CHR 0x20) \<or> c = ch (CHR 0x09) \<or> c = ch (CHR 0x0A) \<or> c = ch (CHR 0x0D)"

definition skip_ws :: "jsstring \<Rightarrow> jsstring" where
  "skip_ws s = dropWhile is_ws s"

definition is_digit :: "jschar \<Rightarrow> bool" where
  "is_digit c \<longleftrightarrow> ch CHR ''0'' \<le> c \<and> c \<le> ch CHR ''9''"

definition digit_val :: "jschar \<Rightarrow> nat" where
  "digit_val c = unat c - 48"

definition digits_val :: "jsstring \<Rightarrow> nat" where
  "digits_val ds = foldl (\<lambda>n d. 10 * n + digit_val d) 0 ds"

definition hex_val :: "jschar \<Rightarrow> nat option" where
  "hex_val c =
     (if ch CHR ''0'' \<le> c \<and> c \<le> ch CHR ''9'' then Some (unat c - 48)
      else if ch CHR ''a'' \<le> c \<and> c \<le> ch CHR ''f'' then Some (unat c - 87)
      else if ch CHR ''A'' \<le> c \<and> c \<le> ch CHR ''F'' then Some (unat c - 55)
      else None)"

definition hex4 :: "jschar \<Rightarrow> jschar \<Rightarrow> jschar \<Rightarrow> jschar \<Rightarrow> jschar option" where
  "hex4 a b c d =
     (case (hex_val a, hex_val b, hex_val c, hex_val d) of
        (Some x, Some y, Some z, Some w) \<Rightarrow> Some (of_nat (4096 * x + 256 * y + 16 * z + w))
      | _ \<Rightarrow> None)"

definition unescape :: "jschar \<Rightarrow> jschar option" where
  "unescape e =
     (if e = ch CHR ''\"'' then Some (ch CHR ''\"'')
      else if e = ch (CHR 0x5C) then Some (ch (CHR 0x5C))
      else if e = ch CHR ''/'' then Some (ch CHR ''/'')
      else if e = ch CHR ''b'' then Some (ch (CHR 0x08))
      else if e = ch CHR ''f'' then Some (ch (CHR 0x0C))
      else if e = ch CHR ''n'' then Some (ch (CHR 0x0A))
      else if e = ch CHR ''r'' then Some (ch (CHR 0x0D))
      else if e = ch CHR ''t'' then Some (ch (CHR 0x09))
      else None)"

text \<open>
  The characters of a string literal after its opening quote, up to the closing
  quote: the decoded string and the rest of the input. A raw control character
  (below U+0020) and an unknown escape are errors.
\<close>

fun string_chars :: "jsstring \<Rightarrow> (jsstring \<times> jsstring) option" where
  "string_chars [] = None"
| "string_chars (c # cs) =
     (if c = ch CHR ''\"'' then Some ([], cs)
      else if c = ch (CHR 0x5C) then
        (case cs of
           [] \<Rightarrow> None
         | e # es \<Rightarrow>
             if e = ch CHR ''u'' then
               (case es of
                  h1 # h2 # h3 # h4 # r \<Rightarrow>
                    (case hex4 h1 h2 h3 h4 of
                       None \<Rightarrow> None
                     | Some u \<Rightarrow> map_option (apfst ((#) u)) (string_chars r))
                | _ \<Rightarrow> None)
             else
               (case unescape e of
                  None \<Rightarrow> None
                | Some u \<Rightarrow> map_option (apfst ((#) u)) (string_chars es)))
      else if c < ch (CHR 0x20) then None
      else map_option (apfst ((#) c)) (string_chars cs))"

text \<open>
  A number literal: \<open>-? (0 | [1-9][0-9]*) (. [0-9]+)? ([eE] [+-]? [0-9]+)?\<close>, read
  with the longest run of digits at each place. \<open>number_frac\<close> reads the optional
  fraction and returns its digits, \<open>number_exp\<close> the optional exponent and returns
  its value.
\<close>

definition number_frac :: "jsstring \<Rightarrow> (jsstring \<times> jsstring) option" where
  "number_frac s =
     (case s of
        [] \<Rightarrow> Some ([], s)
      | c # cs \<Rightarrow>
          if c = ch CHR ''.'' then
            (if takeWhile is_digit cs = [] then None
             else Some (takeWhile is_digit cs, dropWhile is_digit cs))
          else Some ([], s))"

definition number_exp :: "jsstring \<Rightarrow> (int \<times> jsstring) option" where
  "number_exp s =
     (case s of
        [] \<Rightarrow> Some (0, s)
      | c # cs \<Rightarrow>
          if c = ch CHR ''e'' \<or> c = ch CHR ''E'' then
            (let neg = (cs \<noteq> [] \<and> hd cs = ch CHR ''-'');
                 t = (if cs \<noteq> [] \<and> (hd cs = ch CHR ''+'' \<or> hd cs = ch CHR ''-'')
                      then tl cs else cs);
                 es = takeWhile is_digit t
             in if es = [] then None
                else Some (if neg then - int (digits_val es) else int (digits_val es),
                           dropWhile is_digit t))
          else Some (0, s))"

definition parse_number :: "jsstring \<Rightarrow> (rat \<times> jsstring) option" where
  "parse_number s =
     (let neg = (s \<noteq> [] \<and> hd s = ch CHR ''-'');
          s1 = (if neg then tl s else s);
          ds = takeWhile is_digit s1
      in if ds = [] \<or> (length ds > 1 \<and> hd ds = ch CHR ''0'') then None
         else
           (case number_frac (dropWhile is_digit s1) of
              None \<Rightarrow> None
            | Some (fs, s2) \<Rightarrow>
                (case number_exp s2 of
                   None \<Rightarrow> None
                 | Some (e10, s3) \<Rightarrow>
                     let m = (of_nat (digits_val (ds @ fs)) :: rat);
                         e = e10 - int (length fs);
                         v = (if 0 \<le> e then m * 10 ^ nat e else m / 10 ^ nat (- e))
                     in Some (if neg then - v else v, s3))))"

text \<open>
  The members of an object literal become its properties in order; a repeated key
  keeps its first place and takes the last value.
\<close>

definition object_of :: "(jsstring \<times> jsval) list \<Rightarrow> (jsstring \<times> jsval) list" where
  "object_of kvs = foldl (\<lambda>acc kv. AList.update (fst kv) (snd kv) acc) [] kvs"

text \<open>What the termination of the parser rests on: each step consumes input.\<close>

lemma length_skip_ws: "length (skip_ws s) \<le> length s"
  by (simp add: skip_ws_def length_dropWhile_le)

lemma skip_ws_Cons_shorter: "skip_ws s = c # cs \<Longrightarrow> length cs < length s"
  using length_skip_ws [of s] by simp

lemma string_chars_shorter: "string_chars s = Some (k, r) \<Longrightarrow> length r < length s"
proof (induction s arbitrary: k r rule: string_chars.induct)
  case 1
  then show ?case by simp
next
  case (2 c cs)
  then show ?case
    by (fastforce split: if_splits list.splits option.splits)
qed

text \<open>
  Recursive descent. \<open>parse_value\<close> reads one value after optional white space;
  \<open>parse_elements\<close> reads the elements of a non-empty array up to its \<open>]\<close>, and
  \<open>parse_members\<close> the members of a non-empty object up to its \<open>}\<close>. The two tests
  on lengths before the recursive calls after a comma are there for the termination
  proof only: \<open>parse_elements_length_test\<close> and \<open>parse_members_length_test\<close>
  below show that they always hold.
\<close>

function parse_value :: "jsstring \<Rightarrow> (jsval \<times> jsstring) option"
  and parse_elements :: "jsstring \<Rightarrow> (jsval list \<times> jsstring) option"
  and parse_members :: "jsstring \<Rightarrow> ((jsstring \<times> jsval) list \<times> jsstring) option"
where
  "parse_value s =
     (case skip_ws s of
        [] \<Rightarrow> None
      | c # cs \<Rightarrow>
          if c = ch CHR ''{'' then
            (case skip_ws cs of
               [] \<Rightarrow> None
             | d # ds \<Rightarrow>
                 if d = ch CHR ''}'' then Some (JObj [], ds)
                 else (case parse_members cs of
                         None \<Rightarrow> None
                       | Some (kvs, r) \<Rightarrow> Some (JObj (object_of kvs), r)))
          else if c = ch CHR ''['' then
            (case skip_ws cs of
               [] \<Rightarrow> None
             | d # ds \<Rightarrow>
                 if d = ch CHR '']'' then Some (JArr [] [], ds)
                 else (case parse_elements cs of
                         None \<Rightarrow> None
                       | Some (vs, r) \<Rightarrow> Some (JArr vs [], r)))
          else if c = ch CHR ''\"'' then
            (case string_chars cs of
               None \<Rightarrow> None
             | Some (str, r) \<Rightarrow> Some (JStr str, r))
          else if prefix (utf16 ''true'') (c # cs) then Some (JBool True, drop 4 (c # cs))
          else if prefix (utf16 ''false'') (c # cs) then Some (JBool False, drop 5 (c # cs))
          else if prefix (utf16 ''null'') (c # cs) then Some (JNull, drop 4 (c # cs))
          else (case parse_number (c # cs) of
                  None \<Rightarrow> None
                | Some (x, r) \<Rightarrow> Some (JNum x, r)))"
| "parse_elements s =
     (case parse_value s of
        None \<Rightarrow> None
      | Some (v, r) \<Rightarrow>
          (case skip_ws r of
             [] \<Rightarrow> None
           | c # cs \<Rightarrow>
               if c = ch CHR '','' then
                 (if length cs < length s then
                    (case parse_elements cs of
                       None \<Rightarrow> None
                     | Some (vs, r') \<Rightarrow> Some (v # vs, r'))
                  else None)
               else if c = ch CHR '']'' then Some ([v], cs)
               else None))"
| "parse_members s =
     (case skip_ws s of
        [] \<Rightarrow> None
      | c # cs \<Rightarrow>
          if c = ch CHR ''\"'' then
            (case string_chars cs of
               None \<Rightarrow> None
             | Some (k, r) \<Rightarrow>
                 (case skip_ws r of
                    [] \<Rightarrow> None
                  | d # ds \<Rightarrow>
                      if d = ch CHR '':'' then
                        (case parse_value ds of
                           None \<Rightarrow> None
                         | Some (v, r2) \<Rightarrow>
                             (case skip_ws r2 of
                                [] \<Rightarrow> None
                              | e # es \<Rightarrow>
                                  if e = ch CHR '','' then
                                    (if length es < length s then
                                       (case parse_members es of
                                          None \<Rightarrow> None
                                        | Some (kvs, r3) \<Rightarrow> Some ((k, v) # kvs, r3))
                                     else None)
                                  else if e = ch CHR ''}'' then Some ([(k, v)], es)
                                  else None))
                      else None))
          else None)"
  by pat_completeness auto

termination
  by (relation "measure (\<lambda>x. case x of
          Inl s \<Rightarrow> 2 * length s
        | Inr (Inl s) \<Rightarrow> 2 * length s + 1
        | Inr (Inr s) \<Rightarrow> 2 * length s + 1)")
     (auto dest!: skip_ws_Cons_shorter string_chars_shorter)

definition JSON_parse :: "jsstring \<Rightarrow> js_error + jsval" where
  "JSON_parse s =
     (case parse_value s of
        None \<Rightarrow> Inl SyntaxError
      | Some (v, r) \<Rightarrow> if skip_ws r = [] then Inr v else Inl SyntaxError)"

section \<open>The reply of the model service\<close>

text \<open>
  What the source reads of the reply of \<open>generateContent\<close>: \<open>response.text\<close>, which
  may be undefined, and
  \<open>response.candidates?.[0]?.groundingMetadata?.groundingChunks\<close>, undefined as
  soon as one link of the chain is. Of a grounding chunk only \<open>web\<close> is read, and of
  \<open>web\<close> only \<open>uri\<close> and \<open>title\<close>; each may be undefined.
\<close>

record GroundingChunkWeb =
  uri :: "jsstring option"
  title :: "jsstring option"

record GroundingChunk =
  web :: "GroundingChunkWeb option"

record response =
  resp_text :: "jsstring option"
  groundingChunks :: "GroundingChunk list option"

section \<open>\<open>analyzeUrl\<close>\<close>

text \<open>Line 84: \<open>{ uri: web!.uri!, title: web!.title || 'Fuente' }\<close>.\<close>

definition source_of :: "GroundingChunkWeb \<Rightarrow> jsval" where
  "source_of w =
     JObj [(utf16 ''uri'', case uri w of None \<Rightarrow> JUndefined | Some u \<Rightarrow> JStr u),
           (utf16 ''title'',
            case title w of
              None \<Rightarrow> JStr (utf16 ''Fuente'')
            | Some t \<Rightarrow> if t = [] then JStr (utf16 ''Fuente'') else JStr t)]"

text \<open>
  Lines 81 to 84:
  \<open>groundingChunks.map(chunk => chunk.web).filter(web => web !== undefined).map(...)\<close>.
  After the filter every element is defined, so that \<open>the\<close>, which stands for the
  assertion \<open>web!\<close>, is applied to defined references only.
\<close>

definition sources_of :: "GroundingChunk list \<Rightarrow> jsval" where
  "sources_of chunks =
     JArr (map (\<lambda>w. source_of (the w)) (filter (\<lambda>w. w \<noteq> None) (map web chunks))) []"

text \<open>
  \<open>result.sources = v\<close> in module (strict) code, for a key that is neither an array
  index nor \<open>length\<close>: an object or an array takes the property, replacing an earlier
  value; on \<open>null\<close>, \<open>undefined\<close> and the primitive values the assignment throws a
  \<open>TypeError\<close>.
\<close>

fun set_property :: "jsval \<Rightarrow> jsstring \<Rightarrow> jsval \<Rightarrow> js_error + jsval" where
  "set_property (JObj kvs) k v = Inr (JObj (AList.update k v kvs))"
| "set_property (JArr xs ps) k v = Inr (JArr xs (AList.update k v ps))"
| "set_property _ k v = Inl TypeError"

text \<open>Lines 65 to 86, the \<open>try\<close> block once the reply has arrived.\<close>

definition analyzeUrl_try :: "response \<Rightarrow> js_error + jsval" where
  "analyzeUrl_try r =
     (case JSON_parse (json_candidate (resp_text r)) of
        Inl e \<Rightarrow> Inl e
      | Inr result \<Rightarrow>
          (case groundingChunks r of
             None \<Rightarrow> Inr result
           | Some chunks \<Rightarrow> set_property result (utf16 ''sources'') (sources_of chunks)))"

text \<open>Lines 90 to 96, the object returned by the \<open>catch\<close> block.\<close>

definition fallback_result :: jsval where
  "fallback_result =
     JObj [(utf16 ''isAiGenerated'', JBool False),
           (utf16 ''confidenceScore'', JNum 0),
           (utf16 ''verdict'', JStr (utf16 ''Mixed/Uncertain'')),
           (utf16 ''reasoning'',
            JStr (utf16 ''No se pudo analizar el enlace correctamente. Es posible que el contenido sea inaccesible o la respuesta del modelo no fue v''
                  @ [ch (CHR 0xE1)] @ utf16 ''lida.'')),
           (utf16 ''indicators'',
            JArr [JStr (utf16 ''Error de an'' @ [ch (CHR 0xE1)] @ utf16 ''lisis'')] [])]"

text \<open>
  \<open>analyzeUrl\<close>. Its argument is the outcome of the call to the service (lines 46 to
  63): an error when the call throws or rejects, the reply otherwise; the URL only
  shapes the request. Whatever is thrown inside \<open>try\<close> is caught and replaced by the
  fallback object.
\<close>

definition analyzeUrl :: "js_error + response \<Rightarrow> js_error + jsval" where
  "analyzeUrl call =
     (case (case call of Inl e \<Rightarrow> Inl e | Inr r \<Rightarrow> analyzeUrl_try r) of
        Inl e \<Rightarrow> Inr fallback_result
      | Inr result \<Rightarrow> Inr result)"

section \<open>\<open>analyzeText\<close>, \<open>analyzeImage\<close>, \<open>analyzeVideo\<close>\<close>

text \<open>
  Lines 112, 136 and 160: \<open>JSON.parse(response.text || "{}")\<close>; whatever is thrown is
  replaced by a new \<open>Error\<close> with a fixed message.
\<close>

definition parse_reply :: "js_error + response \<Rightarrow> js_error + jsval" where
  "parse_reply call =
     (case call of
        Inl e \<Rightarrow> Inl e
      | Inr r \<Rightarrow> JSON_parse (text_or_default (resp_text r)))"

definition analyzeText :: "js_error + response \<Rightarrow> js_error + jsval" where
  "analyzeText call =
     (case parse_reply call of
        Inl e \<Rightarrow> Inl (Error (utf16 ''Error al analizar texto.''))
      | Inr result \<Rightarrow> Inr result)"

definition analyzeImage :: "js_error + response \<Rightarrow> js_error + jsval" where
  "analyzeImage call =
     (case parse_reply call of
        Inl e \<Rightarrow> Inl (Error (utf16 ''Error al analizar imagen.''))
      | Inr result \<Rightarrow> Inr result)"

definition analyzeVideo :: "js_error + response \<Rightarrow> js_error + jsval" where
  "analyzeVideo call =
     (case parse_reply call of
        Inl e \<Rightarrow> Inl (Error (utf16 ''Error al analizar video.''))
      | Inr result \<Rightarrow> Inr result)"

section \<open>Reading a result\<close>

text \<open>\<open>result.k\<close> on an object: the value of its own property \<open>k\<close>, if it has one.\<close>

fun get_property :: "jsval \<Rightarrow> jsstring \<Rightarrow> jsval option" where
  "get_property (JObj kvs) k = map_of kvs k"
| "get_property _ k = None"

text \<open>
  The payload and the replies of the specification's examples: a fenced block with
  and without the \<open>json\<close> tag, the prose around it, a prose that holds braces of its
  own, a payload with an unknown verdict and one without \<open>confidenceScore\<close>.
\<close>

definition example_payload :: jsstring where
  "example_payload =
     utf16 ''{\"isAiGenerated\":true,\"confidenceScore\":87,\"verdict\":\"AI\",\"reasoning\":\"r\",\"indicators\":[\"a\",\"b\"]}''"

definition fenced_json :: "jsstring \<Rightarrow> jsstring" where
  "fenced_json p = utf16 ''```json'' @ [ch (CHR 0x0A)] @ p @ [ch (CHR 0x0A)] @ utf16 ''```''"

definition fenced_plain :: "jsstring \<Rightarrow> jsstring" where
  "fenced_plain p = utf16 ''```'' @ [ch (CHR 0x0A)] @ p @ [ch (CHR 0x0A)] @ utf16 ''```''"

definition prose_before :: jsstring where
  "prose_before = utf16 ''Sure, here is the analysis:'' @ [ch (CHR 0x0A)]"

definition prose_after :: jsstring where
  "prose_after = [ch (CHR 0x0A)] @ utf16 ''Let me know if you need more.''"


definition robot_payload :: jsstring where
  "robot_payload =
     utf16 ''{\"isAiGenerated\":true,\"confidenceScore\":87,\"verdict\":\"Robot\",\"reasoning\":\"r\",\"indicators\":[]}''"

definition no_score_payload :: jsstring where
  "no_score_payload =
     utf16 ''{\"isAiGenerated\":true,\"verdict\":\"AI\",\"reasoning\":\"r\",\"indicators\":[]}''"

section \<open>Code units\<close>

lemma unat_ch [simp]: "unat (ch c) = of_char c"
proof -
  have "(of_char c :: nat) < 65536"
    using nat_of_char_less_256 [of c] by linarith
  then show ?thesis
    by (simp add: ch_def unat_of_nat)
qed

lemma ch_eq_iff [simp]: "ch a = ch b \<longleftrightarrow> a = b"
proof
  assume "ch a = ch b"
  then have "unat (ch a) = unat (ch b)" by simp
  then show "a = b" by simp
qed simp

lemma ch_le_iff [simp]: "ch a \<le> ch b \<longleftrightarrow> (of_char a :: nat) \<le> of_char b"
  by (simp add: word_le_nat_alt)

lemma ch_less_iff [simp]: "ch a < ch b \<longleftrightarrow> (of_char a :: nat) < of_char b"
  by (simp add: word_less_nat_alt)

section \<open>Searching and slicing\<close>

lemma indexOf_takeWhile:
  "indexOf s c = (if c \<in> set s then int (length (takeWhile (\<lambda>x. x \<noteq> c) s)) else -1)"
  by (induction s) (auto simp: Let_def)

lemma length_takeWhile_neq:
  "c \<in> set s \<Longrightarrow> length (takeWhile (\<lambda>x. x \<noteq> c) s) < length s"
  by (induction s) auto

lemma indexOf_absent: "indexOf s c = -1 \<longleftrightarrow> c \<notin> set s"
  by (simp add: indexOf_takeWhile)

lemma indexOf_bounds:
  assumes "c \<in> set s"
  shows "0 \<le> indexOf s c" "indexOf s c < int (length s)"
proof -
  show "0 \<le> indexOf s c"
    using assms by (simp add: indexOf_takeWhile)
  have "length (takeWhile (\<lambda>x. x \<noteq> c) s) < length s"
    using assms by (rule length_takeWhile_neq)
  then show "indexOf s c < int (length s)"
    using assms by (simp add: indexOf_takeWhile)
qed

lemma indexOf_nth:
  assumes "c \<in> set s"
  shows "s ! nat (indexOf s c) = c"
proof -
  have "length (takeWhile (\<lambda>x. x \<noteq> c) s) < length s"
    using assms by (rule length_takeWhile_neq)
  then have "\<not> (s ! length (takeWhile (\<lambda>x. x \<noteq> c) s) \<noteq> c)"
    by (rule nth_length_takeWhile)
  then show ?thesis
    using assms by (simp add: indexOf_takeWhile)
qed

lemma indexOf_before:
  assumes "c \<in> set s"
  shows "c \<notin> set (take (nat (indexOf s c)) s)"
proof -
  have "take (length (takeWhile (\<lambda>x. x \<noteq> c) s)) s = takeWhile (\<lambda>x. x \<noteq> c) s"
    by (metis takeWhile_eq_take)
  moreover have "c \<notin> set (takeWhile (\<lambda>x. x \<noteq> c) s)"
    using set_takeWhileD by fastforce
  ultimately show ?thesis
    using assms by (simp add: indexOf_takeWhile)
qed


lemma lastIndexOf_absent: "lastIndexOf s c = -1 \<longleftrightarrow> c \<notin> set s"
proof (cases "c \<in> set s")
  case True
  then have "indexOf (rev s) c < int (length s)" "0 \<le> indexOf (rev s) c"
    using indexOf_bounds [of c "rev s"] by simp_all
  then show ?thesis
    using True by (simp add: lastIndexOf_def Let_def)
next
  case False
  then show ?thesis
    by (simp add: lastIndexOf_def Let_def indexOf_absent)
qed

lemma lastIndexOf_bounds:
  assumes "c \<in> set s"
  shows "0 \<le> lastIndexOf s c" "lastIndexOf s c < int (length s)"
  using indexOf_bounds [of c "rev s"] assms
  by (simp_all add: lastIndexOf_def Let_def)

lemma lastIndexOf_nth:
  assumes "c \<in> set s"
  shows "s ! nat (lastIndexOf s c) = c"
proof -
  let ?i = "indexOf (rev s) c"
  have b: "0 \<le> ?i" "?i < int (length s)"
    using indexOf_bounds [of c "rev s"] assms by simp_all
  have "rev s ! nat ?i = c"
    using indexOf_nth [of c "rev s"] assms by simp
  moreover have "rev s ! nat ?i = s ! (length s - Suc (nat ?i))"
    using b by (simp add: rev_nth)
  moreover have "nat (lastIndexOf s c) = length s - Suc (nat ?i)"
    using b by (simp add: lastIndexOf_def Let_def nat_diff_distrib)
  ultimately show ?thesis by simp
qed

lemma lastIndexOf_after:
  assumes "c \<in> set s"
  shows "c \<notin> set (drop (nat (lastIndexOf s c + 1)) s)"
proof -
  let ?i = "indexOf (rev s) c"
  have b: "0 \<le> ?i" "?i < int (length s)"
    using indexOf_bounds [of c "rev s"] assms by simp_all
  have "c \<notin> set (take (nat ?i) (rev s))"
    using indexOf_before [of c "rev s"] assms by simp
  then have "c \<notin> set (drop (length s - nat ?i) s)"
    by (simp add: take_rev)
  moreover have "nat (lastIndexOf s c + 1) = length s - nat ?i"
    using b by (simp add: lastIndexOf_def Let_def)
  ultimately show ?thesis by simp
qed




lemma substring_whole: "substring s 0 (int (length s)) = s"
  by (simp add: substring_def Let_def)

lemma substring_ordered:
  assumes "0 \<le> a" "a \<le> b" "b \<le> int (length s)"
  shows "substring s a b = take (nat (b - a)) (drop (nat a) s)"
  using assms by (simp add: substring_def Let_def min_def max_def)

lemma substring_swapped:
  assumes "0 \<le> b" "b \<le> a" "a \<le> int (length s)"
  shows "substring s a b = take (nat (a - b)) (drop (nat b) s)"
  using assms by (simp add: substring_def Let_def min_def max_def)




lemma sublist_substring: "sublist (substring s a b) s"
proof -
  have "sublist (take n (drop k s)) (drop k s)" for n k
    by simp
  moreover have "sublist (drop k s) s" for k
    by simp
  ultimately have "sublist (take n (drop k s)) s" for n k
    by (meson sublist_order.order_trans)
  then show ?thesis
    by (simp add: substring_def Let_def)
qed

section \<open>The span between the braces\<close>

lemma extract_object_no_braces:
  assumes "ch CHR ''{'' \<notin> set s \<or> ch CHR ''}'' \<notin> set s"
  shows "extract_object s = s"
  using assms by (auto simp: extract_object_def Let_def indexOf_absent lastIndexOf_absent)

lemma extract_object_braces:
  assumes "ch CHR ''{'' \<in> set s" "ch CHR ''}'' \<in> set s"
  shows "extract_object s
       = substring s (indexOf s (ch CHR ''{'')) (lastIndexOf s (ch CHR ''}'') + 1)"
  using assms by (simp add: extract_object_def Let_def indexOf_absent lastIndexOf_absent)

lemma sublist_extract_object: "sublist (extract_object s) s"
  by (simp add: extract_object_def Let_def sublist_substring)


text \<open>Slicing an already sliced text changes nothing.\<close>

lemma extract_object_idem: "extract_object (extract_object s) = extract_object s"
proof (cases "ch CHR ''{'' \<in> set s \<and> ch CHR ''}'' \<in> set s")
  case False
  then show ?thesis
    by (simp add: extract_object_no_braces)
next
  case True
  let ?i = "indexOf s (ch CHR ''{'')"
  let ?j = "lastIndexOf s (ch CHR ''}'')"
  let ?e = "extract_object s"
  have i: "0 \<le> ?i" "?i < int (length s)"
    using indexOf_bounds True by blast+
  have j: "0 \<le> ?j" "?j < int (length s)"
    using lastIndexOf_bounds True by blast+
  have e: "?e = substring s ?i (?j + 1)"
    using True by (simp add: extract_object_braces)
  show ?thesis
  proof (cases "?i \<le> ?j")
    case True
    have ed: "?e = take (nat (?j + 1 - ?i)) (drop (nat ?i) s)"
      using e i j True by (simp add: substring_ordered)
    have len: "length ?e = nat (?j + 1 - ?i)"
      using i j True by (simp add: ed)
    have ne: "?e \<noteq> []"
      using len True by auto
    have "?e ! 0 = s ! nat ?i"
      using i j True by (simp add: ed)
    then have h: "hd ?e = ch CHR ''{''"
      using ne indexOf_nth [of "ch CHR ''{''" s] \<open>ch CHR ''{'' \<in> set s \<and> ch CHR ''}'' \<in> set s\<close>
      by (simp add: hd_conv_nth)
    have "?e ! (length ?e - 1) = s ! (nat ?i + (length ?e - 1))"
      using i j True len by (simp add: ed)
    moreover have "nat ?i + (length ?e - 1) = nat ?j"
      using i j True len by simp
    ultimately have l: "last ?e = ch CHR ''}''"
      using ne lastIndexOf_nth [of "ch CHR ''}''" s] \<open>ch CHR ''{'' \<in> set s \<and> ch CHR ''}'' \<in> set s\<close>
      by (simp add: last_conv_nth)
    obtain t where t: "?e = ch CHR ''{'' # t"
      using ne h by (cases ?e) auto
    obtain u where u: "?e = u @ [ch CHR ''}'']"
      using ne l by (metis append_butlast_last_id)
    have first: "indexOf ?e (ch CHR ''{'') = 0"
      by (subst t) simp
    have "indexOf (rev ?e) (ch CHR ''}'') = 0"
      by (subst u) simp
    then have last: "lastIndexOf ?e (ch CHR ''}'') = int (length ?e) - 1"
      by (simp add: lastIndexOf_def)
    have "ch CHR ''{'' \<in> set ?e" "ch CHR ''}'' \<in> set ?e"
      using ne h l hd_in_set last_in_set by metis+
    then have "extract_object ?e = substring ?e 0 (int (length ?e))"
      using first last by (simp add: extract_object_braces)
    then show ?thesis
      by (simp add: substring_whole)
  next
    case False
    then have lt: "?j + 1 \<le> ?i" by simp
    have ed: "?e = take (nat (?i - (?j + 1))) (drop (nat (?j + 1)) s)"
      using e i j lt by (simp add: substring_swapped)
    have "set ?e \<subseteq> set (drop (nat (?j + 1)) s)"
      by (subst ed) (rule set_take_subset)
    then have "ch CHR ''}'' \<notin> set ?e"
      using lastIndexOf_after [of "ch CHR ''}''" s] True by blast
    then show ?thesis
      by (simp add: extract_object_no_braces)
  qed
qed


section \<open>Deleting the matches of a pattern\<close>

declare remove_matches.simps [simp del]

lemma remove_matches_Nil [simp]: "remove_matches pat [] = []"
  by (simp add: remove_matches.simps)

lemma remove_matches_match:
  assumes "pat \<noteq> []" "prefix pat s"
  shows "remove_matches pat s = remove_matches pat (drop (length pat) s)"
proof -
  have "s \<noteq> []"
    using assms by auto
  then show ?thesis
    using assms by (subst remove_matches.simps) simp
qed

lemma remove_matches_skip:
  assumes "pat = [] \<or> \<not> prefix pat (c # cs)"
  shows "remove_matches pat (c # cs) = c # remove_matches pat cs"
  using assms by (subst remove_matches.simps) auto


lemma filter_remove_matches:
  "\<forall>x\<in>set pat. \<not> P x \<Longrightarrow> filter P (remove_matches pat s) = filter P s"
proof (induction pat s rule: remove_matches.induct)
  case (1 pat s)
  note none = \<open>\<forall>x\<in>set pat. \<not> P x\<close>
  show ?case
  proof (cases "s = []")
    case True
    then show ?thesis by simp
  next
    case ne: False
    show ?thesis
    proof (cases "pat \<noteq> [] \<and> prefix pat s")
      case True
      then have ih: "filter P (remove_matches pat (drop (length pat) s))
          = filter P (drop (length pat) s)"
        using 1 ne by simp
      obtain r where r: "s = pat @ r"
        using True by (auto simp: prefix_def)
      have "filter P pat = []"
        using none by (simp add: filter_empty_conv)
      then show ?thesis
        using True ih r by (simp add: remove_matches_match)
    next
      case False
      obtain c cs where s: "s = c # cs"
        using ne by (cases s) auto
      have "filter P (remove_matches pat cs) = filter P cs"
        using 1(2) [OF ne False] none s by simp
      then show ?thesis
        using False s by (simp add: remove_matches_skip)
    qed
  qed
qed

lemma in_set_remove_matches:
  assumes "c \<notin> set pat"
  shows "c \<in> set (remove_matches pat s) \<longleftrightarrow> c \<in> set s"
proof -
  have "filter (\<lambda>x. x = c) (remove_matches pat s) = filter (\<lambda>x. x = c) s"
    using assms by (intro filter_remove_matches) auto
  then have "set (filter (\<lambda>x. x = c) (remove_matches pat s)) = set (filter (\<lambda>x. x = c) s)"
    by simp
  then show ?thesis
    by auto
qed


lemma remove_matches_no_match:
  assumes "\<not> sublist pat s"
  shows "remove_matches pat s = s"
  using assms
proof (induction s)
  case Nil
  then show ?case by simp
next
  case (Cons c cs)
  then have "\<not> prefix pat (c # cs)" "\<not> sublist pat cs"
    by (auto simp: sublist_Cons_right)
  then show ?case
    using Cons.IH by (simp add: remove_matches_skip)
qed

text \<open>
  After the matches of a run of three equal units are deleted, no such run is left:
  a run of \<open>n\<close> of them is cut down to \<open>n mod 3\<close>.
\<close>

lemma remove_triple_prefix1:
  "prefix [b] (remove_matches [b, b, b] s) \<Longrightarrow> prefix [b] s"
proof (induction "[b, b, b]" s rule: remove_matches.induct)
  case (1 s)
  show ?case
  proof (cases "prefix [b, b, b] s")
    case True
    then show ?thesis
      by (auto simp: prefix_def)
  next
    case False
    then show ?thesis
      using 1(3) by (cases s) (auto simp: remove_matches_skip)
  qed
qed

lemma remove_triple_prefix2:
  "prefix [b, b] (remove_matches [b, b, b] s) \<Longrightarrow> prefix [b, b] s"
proof (induction "[b, b, b]" s rule: remove_matches.induct)
  case (1 s)
  show ?case
  proof (cases "prefix [b, b, b] s")
    case True
    then show ?thesis
      by (auto simp: prefix_def)
  next
    case False
    show ?thesis
    proof (cases s)
      case Nil
      then show ?thesis using 1(3) by simp
    next
      case (Cons c cs)
      have "remove_matches [b, b, b] (c # cs) = c # remove_matches [b, b, b] cs"
        using False Cons by (intro remove_matches_skip) blast
      moreover have "prefix [b, b] (remove_matches [b, b, b] (c # cs))"
        using 1(3) by (simp only: Cons)
      ultimately have "prefix [b, b] (c # remove_matches [b, b, b] cs)"
        by (simp only:)
      then have "c = b" "prefix [b] (remove_matches [b, b, b] cs)"
        by auto
      then have "c = b" "prefix [b] cs"
        using remove_triple_prefix1 [of b cs] by blast+
      then show ?thesis
        using Cons by simp
    qed
  qed
qed

lemma remove_triple_none_left: "\<not> sublist [b, b, b] (remove_matches [b, b, b] s)"
proof (induction "[b, b, b]" s rule: remove_matches.induct)
  case (1 s)
  show ?case
  proof (cases "s = []")
    case True
    then show ?thesis by simp
  next
    case ne: False
    show ?thesis
    proof (cases "prefix [b, b, b] s")
      case True
      then show ?thesis
        using 1(1) ne by (simp add: remove_matches_match)
    next
      case False
      obtain c cs where s: "s = c # cs"
        using ne by (cases s) auto
      have ih: "\<not> sublist [b, b, b] (remove_matches [b, b, b] cs)"
        using 1(2) ne False s by simp
      have "\<not> prefix [b, b, b] (c # remove_matches [b, b, b] cs)"
      proof
        assume "prefix [b, b, b] (c # remove_matches [b, b, b] cs)"
        then have "c = b" "prefix [b, b] (remove_matches [b, b, b] cs)"
          by auto
        then have "c = b" "prefix [b, b] cs"
          using remove_triple_prefix2 [of b cs] by blast+
        then have "prefix [b, b, b] (c # cs)"
          by simp
        with False s show False by blast
      qed
      moreover have "remove_matches [b, b, b] (c # cs) = c # remove_matches [b, b, b] cs"
        using False s by (intro remove_matches_skip) blast
      ultimately show ?thesis
        using ih s by (simp only: sublist_Cons_right) blast
    qed
  qed
qed

section \<open>Stripping the fences\<close>

lemma fence_units:
  "utf16 ''```'' = [ch (CHR 0x60), ch (CHR 0x60), ch (CHR 0x60)]"
  "set (utf16 ''```'') \<subseteq> set (utf16 ''```json'')"
  "sublist (utf16 ''```'') (utf16 ''```json'')"
proof -
  show "utf16 ''```'' = [ch (CHR 0x60), ch (CHR 0x60), ch (CHR 0x60)]"
    by (simp add: utf16_def)
  show "set (utf16 ''```'') \<subseteq> set (utf16 ''```json'')"
    by (simp add: utf16_def)
  have "utf16 ''```json'' = utf16 ''```'' @ utf16 ''json''"
    by (simp add: utf16_def)
  then show "sublist (utf16 ''```'') (utf16 ''```json'')"
    by (metis sublist_append_rightI)
qed

lemma brace_not_in_fence:
  "ch CHR ''{'' \<notin> set (utf16 ''```json'')" "ch CHR ''}'' \<notin> set (utf16 ''```json'')"
  "ch (CHR 0x0A) \<notin> set (utf16 ''```json'')"
  by (simp_all add: utf16_def)

lemma strip_fences_no_fence: "\<not> sublist (utf16 ''```'') (strip_fences s)"
  unfolding strip_fences_def fence_units(1) by (rule remove_triple_none_left)

lemma strip_fences_unfenced:
  assumes "\<not> sublist (utf16 ''```'') s"
  shows "strip_fences s = s"
proof -
  have "\<not> sublist (utf16 ''```json'') s"
    using assms fence_units(3) sublist_order.order_trans by blast
  then show ?thesis
    using assms by (simp add: strip_fences_def remove_matches_no_match)
qed

lemma strip_fences_idem: "strip_fences (strip_fences s) = strip_fences s"
  by (rule strip_fences_unfenced) (rule strip_fences_no_fence)


lemma in_set_strip_fences:
  assumes "c \<notin> set (utf16 ''```json'')"
  shows "c \<in> set (strip_fences s) \<longleftrightarrow> c \<in> set s"
proof -
  have "c \<notin> set (utf16 ''```'')"
    using assms fence_units(2) by blast
  then show ?thesis
    using assms by (simp add: strip_fences_def in_set_remove_matches)
qed


lemma strip_fences_extract_object:
  "strip_fences (extract_object (strip_fences s)) = extract_object (strip_fences s)"
proof (rule strip_fences_unfenced)
  show "\<not> sublist (utf16 ''```'') (extract_object (strip_fences s))"
    using strip_fences_no_fence [of s] sublist_extract_object [of "strip_fences s"]
      sublist_order.order_trans by blast
qed

section \<open>The parser consumes its input\<close>

declare parse_value.simps [simp del] parse_elements.simps [simp del] parse_members.simps [simp del]

lemma skip_ws_strict_suffix:
  assumes "skip_ws s = c # cs"
  shows "strict_suffix cs s"
proof -
  have "suffix (c # cs) s"
    using assms suffix_dropWhile [of is_ws s] by (simp add: skip_ws_def)
  moreover have "strict_suffix cs (c # cs)"
    by (simp add: strict_suffix_def suffix_ConsI)
  ultimately show ?thesis
    by (rule suffix_order.less_le_trans [rotated])
qed

lemma string_chars_strict_suffix:
  "string_chars s = Some (k, r) \<Longrightarrow> strict_suffix r s"
proof (induction s arbitrary: k r rule: string_chars.induct)
  case 1
  then show ?case by simp
next
  case (2 c cs)
  have step: "strict_suffix r (c # cs)" if "strict_suffix r t" "suffix t cs" for t
  proof -
    have "suffix t (c # cs)"
      using that(2) by (rule suffix_ConsI)
    with that(1) show ?thesis
      by (rule suffix_order.less_le_trans)
  qed
  have here: "strict_suffix cs (c # cs)"
    by (simp add: strict_suffix_def suffix_ConsI)
  show ?case
  proof (cases "c = ch CHR ''\"''")
    case True
    then show ?thesis
      using "2.prems" here by simp
  next
    case nq: False
    show ?thesis
    proof (cases "c = ch (CHR 0x5C)")
      case True
      then obtain e es where cs: "cs = e # es"
        using "2.prems" nq by (cases cs) auto
      show ?thesis
      proof (cases "e = ch CHR ''u''")
        case u: True
        then obtain h1 h2 h3 h4 t x k' where
          es: "es = h1 # h2 # h3 # h4 # t" and hx: "hex4 h1 h2 h3 h4 = Some x"
          and rec: "string_chars t = Some (k', r)"
          using "2.prems" nq True cs
          by (auto split: list.splits option.splits)
        have "strict_suffix r t"
          using "2.IH"(1) [OF nq True cs u _ refl refl refl hx rec] es by simp
        moreover have "suffix t cs"
          by (simp add: cs es suffix_ConsI)
        ultimately show ?thesis
          by (rule step)
      next
        case nu: False
        then obtain x k' where ue: "unescape e = Some x" and rec: "string_chars es = Some (k', r)"
          using "2.prems" nq True cs
          by (auto split: option.splits)
        have "strict_suffix r es"
          using "2.IH"(2) [OF nq True cs nu ue rec] .
        moreover have "suffix es cs"
          by (simp add: cs suffix_ConsI)
        ultimately show ?thesis
          by (rule step)
      qed
    next
      case nb: False
      then have ctl: "\<not> c < ch (CHR 0x20)"
        using "2.prems" nq by (auto split: if_splits)
      then obtain k' where rec: "string_chars cs = Some (k', r)"
        using "2.prems" nq nb by auto
      have "strict_suffix r cs"
        using "2.IH"(3) [OF nq nb ctl rec] .
      then show ?thesis
        by (rule step) simp
    qed
  qed
qed

lemma number_frac_suffix: "number_frac s = Some (fs, r) \<Longrightarrow> suffix r s"
  by (auto simp: number_frac_def suffix_dropWhile suffix_ConsI split: list.splits if_splits)

lemma number_exp_suffix:
  assumes "number_exp s = Some (e, r)"
  shows "suffix r s"
proof (cases s)
  case Nil
  then show ?thesis
    using assms by (simp add: number_exp_def)
next
  case (Cons c cs)
  show ?thesis
  proof (cases "c = ch CHR ''e'' \<or> c = ch CHR ''E''")
    case False
    then show ?thesis
      using assms Cons by (auto simp: number_exp_def)
  next
    case True
    define t where
      "t = (if cs \<noteq> [] \<and> (hd cs = ch CHR ''+'' \<or> hd cs = ch CHR ''-'') then tl cs else cs)"
    have "r = dropWhile is_digit t"
      using assms Cons True unfolding number_exp_def Let_def t_def
      by (auto split: if_splits)
    then have "suffix r t"
      by (simp add: suffix_dropWhile)
    moreover have "suffix t cs"
      by (simp add: t_def suffix_tl)
    moreover have "suffix cs s"
      by (simp add: Cons suffix_ConsI)
    ultimately show ?thesis
      by (meson suffix_order.order_trans)
  qed
qed

lemma parse_number_strict_suffix:
  assumes "parse_number s = Some (x, r)"
  shows "strict_suffix r s"
proof -
  define s1 where "s1 = (if s \<noteq> [] \<and> hd s = ch CHR ''-'' then tl s else s)"
  have ds: "takeWhile is_digit s1 \<noteq> []"
    using assms unfolding parse_number_def Let_def s1_def
    by (auto split: if_splits)
  obtain fs s2 e10 where fr: "number_frac (dropWhile is_digit s1) = Some (fs, s2)"
    and ex: "number_exp s2 = Some (e10, r)"
    using assms ds unfolding parse_number_def Let_def s1_def
    by (auto split: if_splits option.splits)
  have "suffix r s2"
    using ex by (rule number_exp_suffix)
  moreover have "suffix s2 (dropWhile is_digit s1)"
    using fr by (rule number_frac_suffix)
  ultimately have "suffix r (dropWhile is_digit s1)"
    by (rule suffix_order.order_trans)
  then have "length r \<le> length (dropWhile is_digit s1)"
    by (rule suffix_length_le)
  moreover have "length (takeWhile is_digit s1) + length (dropWhile is_digit s1) = length s1"
    by (metis length_append takeWhile_dropWhile_id)
  ultimately have "length r < length s1"
    using ds by (simp add: length_greater_0_conv [symmetric] del: length_greater_0_conv)
  moreover have "suffix r s1"
    using \<open>suffix r (dropWhile is_digit s1)\<close> suffix_dropWhile [of is_digit s1]
    by (rule suffix_order.order_trans)
  ultimately have "strict_suffix r s1"
    by (auto simp: strict_suffix_def)
  moreover have "suffix s1 s"
    by (simp add: s1_def suffix_tl)
  ultimately show ?thesis
    by (rule suffix_order.less_le_trans)
qed

lemma drop_strict_suffix: "0 < n \<Longrightarrow> strict_suffix (drop n (c # cs)) (c # cs)"
proof -
  assume "0 < n"
  then obtain m where n: "n = Suc m"
    by (cases n) auto
  have "suffix (drop m cs) cs"
    by (rule suffix_drop)
  then have sf: "suffix (drop n (c # cs)) (c # cs)"
    using n by (simp add: suffix_ConsI)
  have len: "length (drop n (c # cs)) < length (c # cs)"
    using n by simp
  have "drop n (c # cs) \<noteq> c # cs"
  proof
    assume "drop n (c # cs) = c # cs"
    then have "length (drop n (c # cs)) = length (c # cs)"
      by (rule arg_cong)
    with len show False
      by simp
  qed
  with sf show ?thesis
    by (simp add: strict_suffix_def)
qed

text \<open>
  Each of the three parsing functions returns a proper suffix of its input, so the
  tests on lengths in \<open>parse_elements\<close> and \<open>parse_members\<close> never fail.
\<close>

lemma parse_strict_suffix:
  "(\<forall>v r. parse_value s = Some (v, r) \<longrightarrow> strict_suffix r s)"
  "(\<forall>vs r. parse_elements s1 = Some (vs, r) \<longrightarrow> strict_suffix r s1)"
  "(\<forall>kvs r. parse_members s2 = Some (kvs, r) \<longrightarrow> strict_suffix r s2)"
proof (induction s and s1 and s2 rule: parse_value_parse_elements_parse_members.induct)
  case (1 s)
  show ?case
  proof (intro allI impI)
    fix v r
    assume pv: "parse_value s = Some (v, r)"
    then obtain c cs where sk: "skip_ws s = c # cs"
      by (subst (asm) parse_value.simps) (auto split: list.splits)
    have cs: "strict_suffix cs s"
      using sk by (rule skip_ws_strict_suffix)
    have up: "strict_suffix r s" if "strict_suffix r (c # cs)"
    proof -
      have "suffix (c # cs) s"
        using sk suffix_dropWhile [of is_ws s] by (simp add: skip_ws_def)
      with that show ?thesis
        by (rule suffix_order.less_le_trans)
    qed
    have up2: "strict_suffix r s" if "suffix r cs"
      using that cs by (rule suffix_order.le_less_trans)
    have body: "parse_value s =
       (if c = ch CHR ''{'' then
            (case skip_ws cs of
               [] \<Rightarrow> None
             | d # ds \<Rightarrow>
                 if d = ch CHR ''}'' then Some (JObj [], ds)
                 else (case parse_members cs of
                         None \<Rightarrow> None
                       | Some (kvs, r) \<Rightarrow> Some (JObj (object_of kvs), r)))
          else if c = ch CHR ''['' then
            (case skip_ws cs of
               [] \<Rightarrow> None
             | d # ds \<Rightarrow>
                 if d = ch CHR '']'' then Some (JArr [] [], ds)
                 else (case parse_elements cs of
                         None \<Rightarrow> None
                       | Some (vs, r) \<Rightarrow> Some (JArr vs [], r)))
          else if c = ch CHR ''\"'' then
            (case string_chars cs of
               None \<Rightarrow> None
             | Some (str, r) \<Rightarrow> Some (JStr str, r))
          else if prefix (utf16 ''true'') (c # cs) then Some (JBool True, drop 4 (c # cs))
          else if prefix (utf16 ''false'') (c # cs) then Some (JBool False, drop 5 (c # cs))
          else if prefix (utf16 ''null'') (c # cs) then Some (JNull, drop 4 (c # cs))
          else (case parse_number (c # cs) of
                  None \<Rightarrow> None
                | Some (x, r) \<Rightarrow> Some (JNum x, r)))"
      by (subst parse_value.simps) (simp add: sk)
    consider (obj) "c = ch CHR ''{''"
      | (arr) "c \<noteq> ch CHR ''{''" "c = ch CHR ''[''"
      | (str) "c \<noteq> ch CHR ''{''" "c \<noteq> ch CHR ''[''" "c = ch CHR ''\"''"
      | (other) "c \<noteq> ch CHR ''{''" "c \<noteq> ch CHR ''[''" "c \<noteq> ch CHR ''\"''"
      by blast
    then show "strict_suffix r s"
    proof cases
      case obj
      then obtain d ds where sk2: "skip_ws cs = d # ds"
        using pv body by (auto split: list.splits)
      show ?thesis
      proof (cases "d = ch CHR ''}''")
        case True
        then have "r = ds"
          using pv body obj sk2 by simp
        then have "strict_suffix r cs"
          using sk2 skip_ws_strict_suffix by blast
        then show ?thesis
          using cs by (rule suffix_order.less_trans)
      next
        case False
        then obtain kvs where "parse_members cs = Some (kvs, r)"
          using pv body obj sk2 by (auto split: option.splits)
        then have "strict_suffix r cs"
          using "1.IH"(1) [OF sk obj sk2 False] by blast
        then show ?thesis
          using cs by (rule suffix_order.less_trans)
      qed
    next
      case arr
      then obtain d ds where sk2: "skip_ws cs = d # ds"
        using pv body by (auto split: list.splits)
      show ?thesis
      proof (cases "d = ch CHR '']''")
        case True
        then have "r = ds"
          using pv body arr sk2 by simp
        then have "strict_suffix r cs"
          using sk2 skip_ws_strict_suffix by blast
        then show ?thesis
          using cs by (rule suffix_order.less_trans)
      next
        case False
        then obtain vs where "parse_elements cs = Some (vs, r)"
          using pv body arr sk2 by (auto split: option.splits)
        then have "strict_suffix r cs"
          using "1.IH"(2) [OF sk arr sk2 False] by blast
        then show ?thesis
          using cs by (rule suffix_order.less_trans)
      qed
    next
      case str
      then obtain k where "string_chars cs = Some (k, r)"
        using pv body by (auto split: option.splits)
      then have "strict_suffix r cs"
        by (rule string_chars_strict_suffix)
      then show ?thesis
        using cs by (rule suffix_order.less_trans)
    next
      case other
      have "strict_suffix r (c # cs)"
      proof (cases "prefix (utf16 ''true'') (c # cs) \<or> prefix (utf16 ''false'') (c # cs)
          \<or> prefix (utf16 ''null'') (c # cs)")
        case True
        then have "r = drop 4 (c # cs) \<or> r = drop 5 (c # cs)"
          using pv body other by (auto split: if_splits)
        then show ?thesis
          using drop_strict_suffix [of 4 c cs] drop_strict_suffix [of 5 c cs] by auto
      next
        case False
        then obtain x where "parse_number (c # cs) = Some (x, r)"
          using pv body other by (auto split: option.splits)
        then show ?thesis
          by (rule parse_number_strict_suffix)
      qed
      then show ?thesis
        by (rule up)
    qed
  qed
next
  case (2 s)
  show ?case
  proof (intro allI impI)
    fix vs r
    assume pe: "parse_elements s = Some (vs, r)"
    then obtain v r1 where pv: "parse_value s = Some (v, r1)"
      by (subst (asm) parse_elements.simps) (auto split: option.splits)
    have r1: "strict_suffix r1 s"
      using "2.IH"(1) pv by blast
    obtain c cs where sk: "skip_ws r1 = c # cs"
      using pe pv by (subst (asm) parse_elements.simps) (auto split: list.splits)
    have cs: "strict_suffix cs s"
      using skip_ws_strict_suffix [OF sk] r1 by (rule suffix_order.less_trans)
    have body: "parse_elements s =
        (if c = ch CHR '','' then
           (if length cs < length s then
              (case parse_elements cs of
                 None \<Rightarrow> None
               | Some (vs, r') \<Rightarrow> Some (v # vs, r'))
            else None)
         else if c = ch CHR '']'' then Some ([v], cs)
         else None)"
      by (subst parse_elements.simps) (simp add: pv sk)
    show "strict_suffix r s"
    proof (cases "c = ch CHR '',''")
      case True
      have len: "length cs < length s"
        using cs by (rule suffix_length_less)
      then obtain vs' where "parse_elements cs = Some (vs', r)"
        using pe body True by (auto split: option.splits)
      then have "strict_suffix r cs"
        using "2.IH"(2) [OF pv refl sk True len] by blast
      then show ?thesis
        using cs by (rule suffix_order.less_trans)
    next
      case False
      then have "r = cs"
        using pe body by (auto split: if_splits)
      then show ?thesis
        using cs by simp
    qed
  qed
next
  case (3 s)
  show ?case
  proof (intro allI impI)
    fix kvs r
    assume pm: "parse_members s = Some (kvs, r)"
    then obtain c cs where sk: "skip_ws s = c # cs"
      by (subst (asm) parse_members.simps) (auto split: list.splits)
    have q: "c = ch CHR ''\"''"
      using pm sk by (subst (asm) parse_members.simps) (auto split: if_splits)
    obtain k r1 where sc: "string_chars cs = Some (k, r1)"
      using pm sk q by (subst (asm) parse_members.simps) (auto split: option.splits)
    obtain d ds where sk1: "skip_ws r1 = d # ds"
      using pm sk q sc by (subst (asm) parse_members.simps) (auto split: list.splits)
    have colon: "d = ch CHR '':''"
      using pm sk q sc sk1 by (subst (asm) parse_members.simps) (auto split: if_splits)
    obtain v r2 where pv: "parse_value ds = Some (v, r2)"
      using pm sk q sc sk1 colon
      by (subst (asm) parse_members.simps) (auto split: option.splits)
    obtain e es where sk2: "skip_ws r2 = e # es"
      using pm sk q sc sk1 colon pv
      by (subst (asm) parse_members.simps) (auto split: list.splits)
    have body: "parse_members s =
        (if e = ch CHR '','' then
           (if length es < length s then
              (case parse_members es of
                 None \<Rightarrow> None
               | Some (kvs, r3) \<Rightarrow> Some ((k, v) # kvs, r3))
            else None)
         else if e = ch CHR ''}'' then Some ([(k, v)], es)
         else None)"
      by (subst parse_members.simps) (simp add: sk q sc sk1 colon pv sk2)
    have "strict_suffix r2 ds"
      using "3.IH"(1) [OF sk q sc refl sk1 colon] pv by blast
    moreover have "strict_suffix ds r1"
      using sk1 by (rule skip_ws_strict_suffix)
    moreover have "strict_suffix r1 cs"
      using sc by (rule string_chars_strict_suffix)
    moreover have "strict_suffix cs s"
      using sk by (rule skip_ws_strict_suffix)
    moreover have "strict_suffix es r2"
      using sk2 by (rule skip_ws_strict_suffix)
    ultimately have es: "strict_suffix es s"
      by (meson suffix_order.less_trans)
    show "strict_suffix r s"
    proof (cases "e = ch CHR '',''")
      case True
      have len: "length es < length s"
        using es by (rule suffix_length_less)
      then obtain kvs' where "parse_members es = Some (kvs', r)"
        using pm body True by (auto split: option.splits)
      then have "strict_suffix r es"
        using "3.IH"(2) [OF sk q sc refl sk1 colon pv refl sk2 True len] by blast
      then show ?thesis
        using es by (rule suffix_order.less_trans)
    next
      case False
      then have "r = es"
        using pm body by (auto split: if_splits)
      then show ?thesis
        using es by simp
    qed
  qed
qed



section \<open>An object is read from a text with braces\<close>

lemma skip_ws_Cons_set:
  assumes "skip_ws s = c # cs"
  shows "c \<in> set s" "set cs \<subseteq> set s"
proof -
  have "set (c # cs) \<subseteq> set s"
    using assms set_dropWhileD [of _ is_ws s] by (auto simp: skip_ws_def)
  then show "c \<in> set s" "set cs \<subseteq> set s"
    by auto
qed

lemma strict_suffix_set: "strict_suffix r s \<Longrightarrow> set r \<subseteq> set s"
  by (simp add: set_mono_suffix strict_suffix_def)

lemma parse_members_closing:
  "parse_members s = Some (kvs, r) \<Longrightarrow> ch CHR ''}'' \<in> set s"
proof (induction "length s" arbitrary: s kvs r rule: less_induct)
  case less
  note pm = \<open>parse_members s = Some (kvs, r)\<close>
  obtain c cs where sk: "skip_ws s = c # cs"
    using pm by (subst (asm) parse_members.simps) (auto split: list.splits)
  have q: "c = ch CHR ''\"''"
    using pm sk by (subst (asm) parse_members.simps) (auto split: if_splits)
  obtain k r1 where sc: "string_chars cs = Some (k, r1)"
    using pm sk q by (subst (asm) parse_members.simps) (auto split: option.splits)
  obtain d ds where sk1: "skip_ws r1 = d # ds"
    using pm sk q sc by (subst (asm) parse_members.simps) (auto split: list.splits)
  have colon: "d = ch CHR '':''"
    using pm sk q sc sk1 by (subst (asm) parse_members.simps) (auto split: if_splits)
  obtain v r2 where pv: "parse_value ds = Some (v, r2)"
    using pm sk q sc sk1 colon
    by (subst (asm) parse_members.simps) (auto split: option.splits)
  obtain e es where sk2: "skip_ws r2 = e # es"
    using pm sk q sc sk1 colon pv
    by (subst (asm) parse_members.simps) (auto split: list.splits)
  have body: "parse_members s =
      (if e = ch CHR '','' then
         (if length es < length s then
            (case parse_members es of
               None \<Rightarrow> None
             | Some (kvs, r3) \<Rightarrow> Some ((k, v) # kvs, r3))
          else None)
       else if e = ch CHR ''}'' then Some ([(k, v)], es)
       else None)"
    by (subst parse_members.simps) (simp add: sk q sc sk1 colon pv sk2)
  have "set r2 \<subseteq> set ds"
    using pv parse_strict_suffix(1) strict_suffix_set by blast
  moreover have "set ds \<subseteq> set r1"
    using sk1 by (rule skip_ws_Cons_set)
  moreover have "set r1 \<subseteq> set cs"
    using sc string_chars_strict_suffix strict_suffix_set by blast
  moreover have "set cs \<subseteq> set s"
    using sk by (rule skip_ws_Cons_set)
  ultimately have r2: "set r2 \<subseteq> set s"
    by blast
  have e: "e \<in> set r2" and es: "set es \<subseteq> set r2"
    using sk2 skip_ws_Cons_set by blast+
  show ?case
  proof (cases "e = ch CHR '',''")
    case True
    then obtain kvs' where len: "length es < length s" and rec: "parse_members es = Some (kvs', r)"
      using pm body by (auto split: if_splits option.splits)
    have "ch CHR ''}'' \<in> set es"
      using less.hyps [OF len rec] .
    then show ?thesis
      using es r2 by blast
  next
    case False
    then have "e = ch CHR ''}''"
      using pm body by (auto split: if_splits)
    then show ?thesis
      using e r2 by blast
  qed
qed

lemma parse_value_object_braces:
  assumes "parse_value s = Some (JObj kvs, r)"
  shows "ch CHR ''{'' \<in> set s" "ch CHR ''}'' \<in> set s"
proof -
  obtain c cs where sk: "skip_ws s = c # cs"
    using assms by (subst (asm) parse_value.simps) (auto split: list.splits)
  have c: "c = ch CHR ''{''"
    using assms sk
    by (subst (asm) parse_value.simps) (auto split: if_splits list.splits option.splits)
  show "ch CHR ''{'' \<in> set s"
    using sk c skip_ws_Cons_set(1) by blast
  obtain d ds where sk2: "skip_ws cs = d # ds"
    using assms sk c by (subst (asm) parse_value.simps) (auto split: list.splits)
  have cs: "set cs \<subseteq> set s"
    using sk by (rule skip_ws_Cons_set)
  show "ch CHR ''}'' \<in> set s"
  proof (cases "d = ch CHR ''}''")
    case True
    then have "ch CHR ''}'' \<in> set cs"
      using sk2 skip_ws_Cons_set(1) by blast
    then show ?thesis
      using cs by blast
  next
    case False
    then obtain kvs' where "parse_members cs = Some (kvs', r)"
      using assms sk c sk2
      by (subst (asm) parse_value.simps) (auto split: option.splits)
    then have "ch CHR ''}'' \<in> set cs"
      by (rule parse_members_closing)
    then show ?thesis
      using cs by blast
  qed
qed

lemma JSON_parse_object_braces:
  assumes "JSON_parse s = Inr (JObj kvs)"
  shows "ch CHR ''{'' \<in> set s" "ch CHR ''}'' \<in> set s"
proof -
  obtain r where "parse_value s = Some (JObj kvs, r)"
    using assms by (auto simp: JSON_parse_def split: option.splits if_splits)
  then show "ch CHR ''{'' \<in> set s" "ch CHR ''}'' \<in> set s"
    by (rule parse_value_object_braces)+
qed

lemma JSON_parse_empty: "JSON_parse [] = Inl SyntaxError"
  by (simp add: JSON_parse_def parse_value.simps skip_ws_def)

section \<open>The parser reads only what it consumes\<close>

































section \<open>Evaluation on the examples\<close>

lemma JSON_parse_empty_object: "JSON_parse (utf16 ''{}'') = Inr (JObj [])"
  by code_simp

lemma json_candidate_default:
  "json_candidate None = utf16 ''{}''" "json_candidate (Some []) = utf16 ''{}''"
  by code_simp+

text \<open>
  C10. When the text of the reply is absent or empty, the payload is the literal
  \<open>{}\<close>: \<open>analyzeText\<close>, \<open>analyzeImage\<close> and \<open>analyzeVideo\<close> return the empty object,
  and \<open>analyzeUrl\<close> returns an object whose only possible property is \<open>sources\<close>
  (set when grounding chunks came with the reply). No error is raised, and none of
  \<open>isAiGenerated\<close>, \<open>confidenceScore\<close>, \<open>verdict\<close>, \<open>reasoning\<close>, \<open>indicators\<close> is
  present.
\<close>

theorem empty_text_gives_empty_object:
  assumes "t = None \<or> t = Some []"
  shows "analyzeText (Inr \<lparr>resp_text = t, groundingChunks = g\<rparr>) = Inr (JObj [])
       \<and> analyzeImage (Inr \<lparr>resp_text = t, groundingChunks = g\<rparr>) = Inr (JObj [])
       \<and> analyzeVideo (Inr \<lparr>resp_text = t, groundingChunks = g\<rparr>) = Inr (JObj [])
       \<and> (\<exists>result.
             analyzeUrl (Inr \<lparr>resp_text = t, groundingChunks = g\<rparr>) = Inr result
           \<and> result = JObj (case g of None \<Rightarrow> []
                             | Some chunks \<Rightarrow> [(utf16 ''sources'', sources_of chunks)])
           \<and> get_property result (utf16 ''isAiGenerated'') = None
           \<and> get_property result (utf16 ''confidenceScore'') = None
           \<and> get_property result (utf16 ''verdict'') = None
           \<and> get_property result (utf16 ''reasoning'') = None
           \<and> get_property result (utf16 ''indicators'') = None)"
proof -
  have d: "text_or_default t = utf16 ''{}''"
    using assms by (auto simp: text_or_default_def)
  have c: "json_candidate t = utf16 ''{}''"
    using assms json_candidate_default by auto
  have k: "utf16 ''sources'' \<noteq> utf16 ''isAiGenerated''"
    "utf16 ''sources'' \<noteq> utf16 ''confidenceScore''"
    "utf16 ''sources'' \<noteq> utf16 ''verdict''"
    "utf16 ''sources'' \<noteq> utf16 ''reasoning''"
    "utf16 ''sources'' \<noteq> utf16 ''indicators''"
    by (simp_all add: utf16_def)
  show ?thesis
    using k
    by (cases g)
      (simp_all add: analyzeText_def analyzeImage_def analyzeVideo_def parse_reply_def d
        analyzeUrl_def analyzeUrl_try_def c JSON_parse_empty_object)
qed

theorem empty_text_gives_empty_object_witness:
  "analyzeText (Inr \<lparr>resp_text = Some [], groundingChunks = None\<rparr>) = Inr (JObj [])
   \<and> analyzeImage (Inr \<lparr>resp_text = Some [], groundingChunks = None\<rparr>) = Inr (JObj [])
   \<and> analyzeVideo (Inr \<lparr>resp_text = Some [], groundingChunks = None\<rparr>) = Inr (JObj [])
   \<and> analyzeUrl (Inr \<lparr>resp_text = Some [], groundingChunks = None\<rparr>) = Inr (JObj [])"
  using empty_text_gives_empty_object [of "Some []" None] by simp

lemma fenced_example_candidate:
  "json_candidate (Some (fenced_json example_payload)) = example_payload"
  "json_candidate (Some (fenced_plain example_payload)) = example_payload"
  by code_simp+

lemma JSON_parse_example_payload:
  "JSON_parse example_payload
     = Inr (JObj [(utf16 ''isAiGenerated'', JBool True),
                  (utf16 ''confidenceScore'', JNum 87),
                  (utf16 ''verdict'', JStr (utf16 ''AI'')),
                  (utf16 ''reasoning'', JStr (utf16 ''r'')),
                  (utf16 ''indicators'', JArr [JStr (utf16 ''a''), JStr (utf16 ''b'')] [])])"
  by code_simp

text \<open>
  C6. For the reply that is a fenced code block around the example payload, with no
  grounding chunks, \<open>analyzeUrl\<close> returns the parsed object: \<open>confidenceScore\<close> is
  87, \<open>verdict\<close> is \<open>"AI"\<close>, \<open>indicators\<close> is \<open>["a","b"]\<close>, and there is no \<open>sources\<close>
  property. The fence may carry the \<open>json\<close> tag or no tag.
\<close>

theorem fenced_example_extracted:
  "analyzeUrl (Inr \<lparr>resp_text = Some (fenced_json example_payload), groundingChunks = None\<rparr>)
     = Inr (JObj [(utf16 ''isAiGenerated'', JBool True),
                  (utf16 ''confidenceScore'', JNum 87),
                  (utf16 ''verdict'', JStr (utf16 ''AI'')),
                  (utf16 ''reasoning'', JStr (utf16 ''r'')),
                  (utf16 ''indicators'', JArr [JStr (utf16 ''a''), JStr (utf16 ''b'')] [])])
   \<and> analyzeUrl (Inr \<lparr>resp_text = Some (fenced_plain example_payload), groundingChunks = None\<rparr>)
     = analyzeUrl (Inr \<lparr>resp_text = Some (fenced_json example_payload), groundingChunks = None\<rparr>)
   \<and> (case analyzeUrl (Inr \<lparr>resp_text = Some (fenced_json example_payload), groundingChunks = None\<rparr>) of
        Inl e \<Rightarrow> False
      | Inr result \<Rightarrow>
          get_property result (utf16 ''confidenceScore'') = Some (JNum 87)
        \<and> get_property result (utf16 ''verdict'') = Some (JStr (utf16 ''AI''))
        \<and> get_property result (utf16 ''indicators'')
            = Some (JArr [JStr (utf16 ''a''), JStr (utf16 ''b'')] [])
        \<and> get_property result (utf16 ''sources'') = None)"
  by (simp add: analyzeUrl_def analyzeUrl_try_def fenced_example_candidate
      JSON_parse_example_payload utf16_def)

section \<open>Failures\<close>

lemma not_json_rejected:
  "JSON_parse (json_candidate (Some (utf16 ''not json''))) = Inl SyntaxError"
  by code_simp


lemma number_text:
  "json_candidate (Some (utf16 ''123'')) = utf16 ''123''"
  "JSON_parse (utf16 ''123'') = Inr (JNum 123)"
  by code_simp+



section \<open>No validation of the parsed object\<close>

lemma payload_candidates:
  "json_candidate (Some robot_payload) = robot_payload"
  "json_candidate (Some no_score_payload) = no_score_payload"
  by code_simp+

lemma JSON_parse_robot_payload:
  "JSON_parse robot_payload
     = Inr (JObj [(utf16 ''isAiGenerated'', JBool True),
                  (utf16 ''confidenceScore'', JNum 87),
                  (utf16 ''verdict'', JStr (utf16 ''Robot'')),
                  (utf16 ''reasoning'', JStr (utf16 ''r'')),
                  (utf16 ''indicators'', JArr [] [])])"
  by code_simp


lemma robot_payload_nonempty: "robot_payload \<noteq> []" "no_score_payload \<noteq> []"
  by (simp_all add: robot_payload_def no_score_payload_def utf16_def)

text \<open>
  What \<open>analyzeUrl\<close> returns once the candidate has parsed to an object: the object
  itself, with \<open>sources\<close> set when grounding chunks came with the reply.
\<close>

lemma analyzeUrl_object:
  assumes "JSON_parse (json_candidate t) = Inr (JObj kvs)"
  shows "analyzeUrl (Inr \<lparr>resp_text = t, groundingChunks = g\<rparr>)
       = Inr (JObj (case g of
                      None \<Rightarrow> kvs
                    | Some chunks \<Rightarrow> AList.update (utf16 ''sources'') (sources_of chunks) kvs))"
  using assms by (cases g) (simp_all add: analyzeUrl_def analyzeUrl_try_def)

lemma map_of_sources_update:
  assumes "k \<noteq> utf16 ''sources''"
  shows "map_of (case g of
                   None \<Rightarrow> kvs
                 | Some chunks \<Rightarrow> AList.update (utf16 ''sources'') (sources_of chunks) kvs) k
       = map_of kvs k"
  using assms by (cases g) (simp_all add: update_conv')

text \<open>
  C2, as stated, fails on the code: the payload with \<open>"verdict":"Robot"\<close> is returned
  by \<open>analyzeUrl\<close> and by \<open>analyzeText\<close> as parsed, with the verdict \<open>Robot\<close>.
\<close>

theorem robot_verdict_returned:
  "analyzeUrl (Inr \<lparr>resp_text = Some robot_payload, groundingChunks = None\<rparr>)
     = Inr (JObj [(utf16 ''isAiGenerated'', JBool True),
                  (utf16 ''confidenceScore'', JNum 87),
                  (utf16 ''verdict'', JStr (utf16 ''Robot'')),
                  (utf16 ''reasoning'', JStr (utf16 ''r'')),
                  (utf16 ''indicators'', JArr [] [])])
   \<and> analyzeText (Inr \<lparr>resp_text = Some robot_payload, groundingChunks = None\<rparr>)
     = analyzeUrl (Inr \<lparr>resp_text = Some robot_payload, groundingChunks = None\<rparr>)"
  by (simp add: analyzeUrl_def analyzeUrl_try_def analyzeText_def parse_reply_def
      text_or_default_def payload_candidates JSON_parse_robot_payload robot_payload_nonempty)

text \<open>
  C2, amended. The verdict is not validated: whenever the candidate parses to an
  object, \<open>analyzeUrl\<close> returns an object with the same \<open>verdict\<close> property, whatever
  its value, and \<open>analyzeText\<close>, \<open>analyzeImage\<close> and \<open>analyzeVideo\<close> return whatever
  \<open>JSON.parse\<close> yields; there is no \<open>SchemaViolation\<close> error.
\<close>

theorem verdict_not_validated:
  "(JSON_parse (json_candidate t) = Inr (JObj kvs) \<longrightarrow>
      (\<exists>kvs'. analyzeUrl (Inr \<lparr>resp_text = t, groundingChunks = g\<rparr>) = Inr (JObj kvs')
           \<and> map_of kvs' (utf16 ''verdict'') = map_of kvs (utf16 ''verdict'')))
   \<and> (JSON_parse (text_or_default t) = Inr v \<longrightarrow>
        analyzeText (Inr \<lparr>resp_text = t, groundingChunks = g\<rparr>) = Inr v
      \<and> analyzeImage (Inr \<lparr>resp_text = t, groundingChunks = g\<rparr>) = Inr v
      \<and> analyzeVideo (Inr \<lparr>resp_text = t, groundingChunks = g\<rparr>) = Inr v)"
proof -
  have "utf16 ''verdict'' \<noteq> utf16 ''sources''"
    by (simp add: utf16_def)
  then show ?thesis
    by (simp add: analyzeUrl_object map_of_sources_update analyzeText_def analyzeImage_def
        analyzeVideo_def parse_reply_def)
qed

theorem verdict_not_validated_witness:
  "JSON_parse (json_candidate (Some robot_payload)) = JSON_parse robot_payload
   \<and> JSON_parse (text_or_default (Some robot_payload)) = JSON_parse robot_payload
   \<and> (\<exists>kvs'. analyzeUrl (Inr \<lparr>resp_text = Some robot_payload, groundingChunks = Some []\<rparr>)
              = Inr (JObj kvs')
           \<and> map_of kvs' (utf16 ''verdict'') = Some (JStr (utf16 ''Robot'')))
   \<and> analyzeVideo (Inr \<lparr>resp_text = Some robot_payload, groundingChunks = Some []\<rparr>)
     = JSON_parse robot_payload"
  using verdict_not_validated [of "Some robot_payload"
      "[(utf16 ''isAiGenerated'', JBool True), (utf16 ''confidenceScore'', JNum 87),
        (utf16 ''verdict'', JStr (utf16 ''Robot'')), (utf16 ''reasoning'', JStr (utf16 ''r'')),
        (utf16 ''indicators'', JArr [] [])]" "Some []"
      "JObj [(utf16 ''isAiGenerated'', JBool True), (utf16 ''confidenceScore'', JNum 87),
        (utf16 ''verdict'', JStr (utf16 ''Robot'')), (utf16 ''reasoning'', JStr (utf16 ''r'')),
        (utf16 ''indicators'', JArr [] [])]"]
  by (simp add: payload_candidates JSON_parse_robot_payload text_or_default_def
      robot_payload_nonempty utf16_def)




section \<open>Texts without braces\<close>

text \<open>
  C4, as stated, fails on the code: the text \<open>123\<close> holds no brace, the whole text is
  the candidate, and it parses; \<open>analyzeUrl\<close> returns the number.
\<close>

theorem braceless_number_parses:
  "ch CHR ''{'' \<notin> set (utf16 ''123'') \<and> ch CHR ''}'' \<notin> set (utf16 ''123'')
   \<and> analyzeUrl (Inr \<lparr>resp_text = Some (utf16 ''123''), groundingChunks = None\<rparr>)
     = Inr (JNum 123)"
  by (simp add: analyzeUrl_def analyzeUrl_try_def number_text) (simp add: utf16_def)

text \<open>
  C4, amended. For every non-empty text with no \<open>{\<close> and no \<open>}\<close>, the candidate is
  the whole text with its fences stripped, and it never parses to an object. When
  \<open>JSON.parse\<close> rejects it, \<open>analyzeUrl\<close> returns the fallback object, not an error;
  when it is accepted (a scalar or an array) and no grounding chunks came with the
  reply, the parsed value is returned.
\<close>

theorem braceless_text_candidate:
  assumes "s \<noteq> []" "ch CHR ''{'' \<notin> set s" "ch CHR ''}'' \<notin> set s"
  shows "json_candidate (Some s) = strip_fences s
       \<and> JSON_parse (json_candidate (Some s)) \<noteq> Inr (JObj kvs)
       \<and> (JSON_parse (strip_fences s) = Inl e \<longrightarrow>
            analyzeUrl (Inr \<lparr>resp_text = Some s, groundingChunks = g\<rparr>) = Inr fallback_result)
       \<and> (JSON_parse (strip_fences s) = Inr v \<longrightarrow>
            analyzeUrl (Inr \<lparr>resp_text = Some s, groundingChunks = None\<rparr>) = Inr v)"
proof -
  have nb: "ch CHR ''{'' \<notin> set (strip_fences s)"
    using assms(2) by (simp add: in_set_strip_fences brace_not_in_fence)
  then have c: "json_candidate (Some s) = strip_fences s"
    using assms(1) by (simp add: json_candidate_def text_or_default_def extract_object_no_braces)
  have "JSON_parse (strip_fences s) \<noteq> Inr (JObj kvs)"
    using nb JSON_parse_object_braces(1) by blast
  then show ?thesis
    using c by (simp add: analyzeUrl_def analyzeUrl_try_def)
qed

theorem braceless_text_candidate_witness:
  "utf16 ''not json'' \<noteq> []
   \<and> ch CHR ''{'' \<notin> set (utf16 ''not json'') \<and> ch CHR ''}'' \<notin> set (utf16 ''not json'')
   \<and> json_candidate (Some (utf16 ''not json'')) = strip_fences (utf16 ''not json'')
   \<and> JSON_parse (strip_fences (utf16 ''not json'')) = Inl SyntaxError
   \<and> analyzeUrl (Inr \<lparr>resp_text = Some (utf16 ''not json''), groundingChunks = Some []\<rparr>)
     = Inr fallback_result
   \<and> JSON_parse (strip_fences (utf16 ''123'')) = Inr (JNum 123)
   \<and> analyzeUrl (Inr \<lparr>resp_text = Some (utf16 ''123''), groundingChunks = None\<rparr>)
     = Inr (JNum 123)"
proof -
  have h: "utf16 ''not json'' \<noteq> []" "ch CHR ''{'' \<notin> set (utf16 ''not json'')"
    "ch CHR ''}'' \<notin> set (utf16 ''not json'')"
    by (simp_all add: utf16_def)
  have k: "utf16 ''123'' \<noteq> []" "ch CHR ''{'' \<notin> set (utf16 ''123'')"
    "ch CHR ''}'' \<notin> set (utf16 ''123'')"
    by (simp_all add: utf16_def)
  have "json_candidate (Some (utf16 ''123'')) = strip_fences (utf16 ''123'')"
    using braceless_text_candidate [OF k, of "[]" SyntaxError None "JNum 123"] by blast
  then have n: "JSON_parse (strip_fences (utf16 ''123'')) = Inr (JNum 123)"
    using number_text by simp
  show ?thesis
    using h n braceless_text_candidate [OF h, of "[]" SyntaxError "Some []"]
      braceless_text_candidate [OF k, of "[]" SyntaxError None "JNum 123"] not_json_rejected
    by simp
qed

section \<open>What stripping the fences does\<close>









section \<open>Prose around the payload, and extraction repeated\<close>


text \<open>The \<open>try\<close> block depends on the text of the reply through the candidate only.\<close>

lemma analyzeUrl_try_candidate:
  assumes "json_candidate t = json_candidate t'"
  shows "analyzeUrl_try \<lparr>resp_text = t, groundingChunks = g\<rparr>
       = analyzeUrl_try \<lparr>resp_text = t', groundingChunks = g\<rparr>"
  using assms by (cases "JSON_parse (json_candidate t')") (simp_all add: analyzeUrl_try_def)







text \<open>
  The candidate of a candidate is that candidate, unless it is empty (an empty text
  is replaced by \<open>{}\<close> on line 65).
\<close>

lemma json_candidate_idem:
  assumes "json_candidate t \<noteq> []"
  shows "json_candidate (Some (json_candidate t)) = json_candidate t"
proof -
  let ?s = "strip_fences (text_or_default t)"
  have "json_candidate (Some (json_candidate t)) = extract_object (strip_fences (extract_object ?s))"
    using assms by (simp add: json_candidate_def text_or_default_def)
  also have "\<dots> = extract_object (extract_object ?s)"
    by (simp add: strip_fences_extract_object)
  also have "\<dots> = extract_object ?s"
    by (rule extract_object_idem)
  finally show ?thesis
    by (simp add: json_candidate_def)
qed

text \<open>
  C8. Extraction is idempotent: when \<open>analyzeUrl\<close> extracts a result from a reply
  (its \<open>try\<close> block completes), running it again on the slice that was handed to
  \<open>JSON.parse\<close>, with the same grounding chunks, gives the same result.
\<close>

theorem extraction_idempotent:
  assumes "analyzeUrl_try \<lparr>resp_text = t, groundingChunks = g\<rparr> = Inr v"
  shows "analyzeUrl_try \<lparr>resp_text = Some (json_candidate t), groundingChunks = g\<rparr> = Inr v
       \<and> analyzeUrl (Inr \<lparr>resp_text = Some (json_candidate t), groundingChunks = g\<rparr>)
         = analyzeUrl (Inr \<lparr>resp_text = t, groundingChunks = g\<rparr>)"
proof -
  have "JSON_parse (json_candidate t) \<noteq> Inl SyntaxError"
    using assms by (auto simp: analyzeUrl_try_def split: sum.splits)
  then have "json_candidate t \<noteq> []"
    using JSON_parse_empty by auto
  then have "json_candidate (Some (json_candidate t)) = json_candidate t"
    by (rule json_candidate_idem)
  then have "analyzeUrl_try \<lparr>resp_text = Some (json_candidate t), groundingChunks = g\<rparr>
      = analyzeUrl_try \<lparr>resp_text = t, groundingChunks = g\<rparr>"
    by (rule analyzeUrl_try_candidate)
  then show ?thesis
    using assms by (simp add: analyzeUrl_def)
qed

lemma prose_example_candidate:
  "json_candidate (Some (prose_before @ fenced_json example_payload @ prose_after))
     = example_payload"
  by code_simp

theorem extraction_idempotent_witness:
  "analyzeUrl_try \<lparr>resp_text = Some (prose_before @ fenced_json example_payload @ prose_after),
                   groundingChunks = None\<rparr>
     = JSON_parse example_payload
   \<and> analyzeUrl_try \<lparr>resp_text = Some example_payload, groundingChunks = None\<rparr>
     = JSON_parse example_payload"
  using extraction_idempotent
    [of "Some (prose_before @ fenced_json example_payload @ prose_after)" None
      "JObj [(utf16 ''isAiGenerated'', JBool True),
             (utf16 ''confidenceScore'', JNum 87),
             (utf16 ''verdict'', JStr (utf16 ''AI'')),
             (utf16 ''reasoning'', JStr (utf16 ''r'')),
             (utf16 ''indicators'', JArr [JStr (utf16 ''a''), JStr (utf16 ''b'')] [])]"]
  by (simp add: analyzeUrl_try_def prose_example_candidate JSON_parse_example_payload)

section \<open>Grounding sources\<close>

text \<open>
  C9, as stated, fails on the code: an empty list of grounding chunks still attaches
  \<open>sources\<close>, as the empty array, and a chunk whose web reference has no URI is not
  skipped but mapped to a pair whose \<open>uri\<close> is undefined.
\<close>

theorem empty_sources_attached:
  "analyzeUrl (Inr \<lparr>resp_text = Some (utf16 ''{}''), groundingChunks = Some []\<rparr>)
     = Inr (JObj [(utf16 ''sources'', JArr [] [])])
   \<and> analyzeUrl (Inr \<lparr>resp_text = Some (utf16 ''{}''),
        groundingChunks = Some [\<lparr>web = Some \<lparr>uri = None, title = Some (utf16 ''T'')\<rparr>\<rparr>]\<rparr>)
     = Inr (JObj [(utf16 ''sources'',
                   JArr [JObj [(utf16 ''uri'', JUndefined),
                               (utf16 ''title'', JStr (utf16 ''T''))]] [])])"
proof -
  have "json_candidate (Some (utf16 ''{}'')) = utf16 ''{}''"
    by code_simp
  then show ?thesis
    by (simp add: analyzeUrl_def analyzeUrl_try_def JSON_parse_empty_object sources_of_def
        source_of_def) (simp add: utf16_def)
qed

text \<open>
  C9, amended. When grounding chunks come with a reply whose candidate parses to an
  object, every chunk whose web reference is defined is mapped, in order, to a pair
  of \<open>uri\<close> and \<open>title\<close>, the title being \<open>Fuente\<close> when it is absent or empty and the
  \<open>uri\<close> undefined when the reference has none, whatever the title; chunks without a
  web reference are skipped; the sequence is assigned to \<open>sources\<close> whenever the list
  of chunks is supplied, even when the sequence is empty, and not at all when no list
  is supplied. For the chunks \<open>[{web:{uri:"https://x", title:"X"}}, {web:undefined}]\<close>
  the sources are \<open>[{uri:"https://x", title:"X"}]\<close>.
\<close>

theorem grounding_sources:
  assumes "JSON_parse (json_candidate t) = Inr (JObj kvs)"
  shows "analyzeUrl (Inr \<lparr>resp_text = t, groundingChunks = Some chunks\<rparr>)
         = Inr (JObj (AList.update (utf16 ''sources'') (sources_of chunks) kvs))
       \<and> analyzeUrl (Inr \<lparr>resp_text = t, groundingChunks = None\<rparr>) = Inr (JObj kvs)
       \<and> sources_of chunks
         = JArr (concat (map (\<lambda>c. case web c of None \<Rightarrow> [] | Some w \<Rightarrow> [source_of w])
                          chunks)) []
       \<and> sources_of [] = JArr [] []
       \<and> get_property (source_of \<lparr>uri = Some u, title = ti\<rparr>) (utf16 ''uri'')
         = Some (JStr u)
       \<and> get_property (source_of \<lparr>uri = None, title = ti\<rparr>) (utf16 ''uri'')
         = Some JUndefined
       \<and> get_property (source_of \<lparr>uri = w, title = Some (x # xs)\<rparr>) (utf16 ''title'')
         = Some (JStr (x # xs))
       \<and> get_property (source_of \<lparr>uri = w, title = Some []\<rparr>) (utf16 ''title'')
         = Some (JStr (utf16 ''Fuente''))
       \<and> get_property (source_of \<lparr>uri = w, title = None\<rparr>) (utf16 ''title'')
         = Some (JStr (utf16 ''Fuente''))
       \<and> sources_of [\<lparr>web = Some \<lparr>uri = Some (utf16 ''https://x''), title = Some (utf16 ''X'')\<rparr>\<rparr>,
                      \<lparr>web = None\<rparr>]
         = JArr [JObj [(utf16 ''uri'', JStr (utf16 ''https://x'')),
                       (utf16 ''title'', JStr (utf16 ''X''))]] []"
proof -
  have keys: "utf16 ''title'' \<noteq> utf16 ''uri''"
    by (simp add: utf16_def)
  have ex: "utf16 ''X'' \<noteq> []"
    by (simp add: utf16_def)
  have each: "map (\<lambda>w. source_of (the w)) (filter (\<lambda>w. w \<noteq> None) (map web cs))
      = concat (map (\<lambda>c. case web c of None \<Rightarrow> [] | Some w \<Rightarrow> [source_of w]) cs)" for cs
    by (induction cs) (auto split: option.splits)
  have all: "sources_of chunks
      = JArr (concat (map (\<lambda>c. case web c of None \<Rightarrow> [] | Some w \<Rightarrow> [source_of w])
                       chunks)) []"
    by (simp only: sources_of_def each)
  have rest: "sources_of [] = JArr [] []"
    "sources_of [\<lparr>web = Some \<lparr>uri = Some (utf16 ''https://x''), title = Some (utf16 ''X'')\<rparr>\<rparr>,
                 \<lparr>web = None\<rparr>]
       = JArr [JObj [(utf16 ''uri'', JStr (utf16 ''https://x'')),
                     (utf16 ''title'', JStr (utf16 ''X''))]] []"
    using ex by (simp_all add: sources_of_def source_of_def)
  show ?thesis
    using keys all rest
    by (simp add: analyzeUrl_object [OF assms] source_of_def)
qed

theorem grounding_sources_witness:
  "JSON_parse (json_candidate (Some example_payload)) = JSON_parse example_payload
   \<and> analyzeUrl (Inr \<lparr>resp_text = Some example_payload,
        groundingChunks = Some [\<lparr>web = Some \<lparr>uri = Some (utf16 ''https://x''),
                                                  title = Some (utf16 ''X'')\<rparr>\<rparr>,
                                \<lparr>web = None\<rparr>]\<rparr>)
     = Inr (JObj [(utf16 ''isAiGenerated'', JBool True),
                  (utf16 ''confidenceScore'', JNum 87),
                  (utf16 ''verdict'', JStr (utf16 ''AI'')),
                  (utf16 ''reasoning'', JStr (utf16 ''r'')),
                  (utf16 ''indicators'', JArr [JStr (utf16 ''a''), JStr (utf16 ''b'')] []),
                  (utf16 ''sources'',
                   JArr [JObj [(utf16 ''uri'', JStr (utf16 ''https://x'')),
                               (utf16 ''title'', JStr (utf16 ''X''))]] [])])"
proof -
  let ?chunks = "[\<lparr>web = Some \<lparr>uri = Some (utf16 ''https://x''), title = Some (utf16 ''X'')\<rparr>\<rparr>,
                  \<lparr>web = None\<rparr>]"
  let ?kvs = "[(utf16 ''isAiGenerated'', JBool True),
               (utf16 ''confidenceScore'', JNum 87),
               (utf16 ''verdict'', JStr (utf16 ''AI'')),
               (utf16 ''reasoning'', JStr (utf16 ''r'')),
               (utf16 ''indicators'', JArr [JStr (utf16 ''a''), JStr (utf16 ''b'')] [])]"
  have c: "json_candidate (Some example_payload) = example_payload"
    by code_simp
  have p: "JSON_parse (json_candidate (Some example_payload)) = Inr (JObj ?kvs)"
    by (simp add: c JSON_parse_example_payload)
  have srcs: "sources_of ?chunks
      = JArr [JObj [(utf16 ''uri'', JStr (utf16 ''https://x'')),
                    (utf16 ''title'', JStr (utf16 ''X''))]] []"
    by (simp add: sources_of_def source_of_def utf16_def)
  have upd: "AList.update (utf16 ''sources'') v ?kvs = ?kvs @ [(utf16 ''sources'', v)]" for v
    by (simp add: utf16_def)
  have "analyzeUrl (Inr \<lparr>resp_text = Some example_payload, groundingChunks = Some ?chunks\<rparr>)
      = Inr (JObj (AList.update (utf16 ''sources'') (sources_of ?chunks) ?kvs))"
    using grounding_sources [OF p, of ?chunks] by blast
  then have "analyzeUrl (Inr \<lparr>resp_text = Some example_payload, groundingChunks = Some ?chunks\<rparr>)
      = Inr (JObj (?kvs @ [(utf16 ''sources'', sources_of ?chunks)]))"
    by (simp only: upd)
  then show ?thesis
    by (simp add: c srcs)
qed

end
